theory Spec2Isabelle
  imports Main "HOL-Library.AList" "HOL-Library.Char_ord" "HOL-Library.List_Lexorder"
    "HOL-Library.Product_Lexorder"
begin

section \<open>Text and character classes\<close>

text \<open>
  The converter (\<^verbatim>\<open>src/main.py\<close>) works on Python \<^verbatim>\<open>str\<close> values. A text is modelled
  as a \<^typ>\<open>string\<close>, one \<^typ>\<open>char\<close> per code point, which covers the code points below
  256. On that range the Unicode classes that \<^verbatim>\<open>re\<close> and \<^verbatim>\<open>str\<close> consult are the
  finite sets written out below.
\<close>

abbreviation (input) NL :: char where "NL \<equiv> CHR 0x0A"
abbreviation (input) CR :: char where "CR \<equiv> CHR 0x0D"
abbreviation (input) BSL :: char where "BSL \<equiv> CHR 0x5C"

definition is_space :: "char \<Rightarrow> bool" where
  \<comment> \<open>\<^verbatim>\<open>str.isspace\<close>, which is also the class \<^verbatim>\<open>\s\<close> of a \<^verbatim>\<open>str\<close> pattern\<close>
  "is_space c \<longleftrightarrow> c \<in> set [CHR 0x09, CHR 0x0A, CHR 0x0B, CHR 0x0C, CHR 0x0D,
      CHR 0x1C, CHR 0x1D, CHR 0x1E, CHR 0x1F, CHR 0x20, CHR 0x85, CHR 0xA0]"

definition is_digit :: "char \<Rightarrow> bool" where
  \<comment> \<open>the class \<^verbatim>\<open>\d\<close> of a \<^verbatim>\<open>str\<close> pattern\<close>
  "is_digit c \<longleftrightarrow> c \<in> set ''0123456789''"

definition is_linebreak :: "char \<Rightarrow> bool" where
  \<comment> \<open>the line boundaries of \<^verbatim>\<open>str.splitlines\<close>\<close>
  "is_linebreak c \<longleftrightarrow> c \<in> set [CHR 0x0A, CHR 0x0B, CHR 0x0C, CHR 0x0D,
      CHR 0x1C, CHR 0x1D, CHR 0x1E, CHR 0x85]"

definition strip :: "string \<Rightarrow> string" where
  \<comment> \<open>\<^verbatim>\<open>s.strip()\<close>\<close>
  "strip s = rev (dropWhile is_space (rev (dropWhile is_space s)))"

definition starts_with :: "string \<Rightarrow> string \<Rightarrow> bool" where
  \<comment> \<open>\<^verbatim>\<open>s.startswith(p)\<close>\<close>
  "starts_with p s \<longleftrightarrow> take (length p) s = p"

definition slice :: "string \<Rightarrow> nat \<Rightarrow> nat \<Rightarrow> string" where
  \<comment> \<open>\<^verbatim>\<open>s[a:b]\<close> for non-negative bounds; empty when \<open>b \<le> a\<close>\<close>
  "slice s a b = take (b - a) (drop a s)"

section \<open>The text normalizer: \<^verbatim>\<open>clean_text\<close>\<close>

function splitlines :: "string \<Rightarrow> string list" where
  "splitlines [] = []"
| "splitlines (c # cs) =
     (let ln = takeWhile (\<lambda>x. \<not> is_linebreak x) (c # cs);
          r = dropWhile (\<lambda>x. \<not> is_linebreak x) (c # cs)
      in case r of
           [] \<Rightarrow> [ln]
         | x # r' \<Rightarrow> ln # splitlines (if x = CR \<and> starts_with [NL] r' then tl r' else r'))"
  by pat_completeness auto
termination
proof (relation "measure length", goal_cases)
  case 1
  show ?case by simp
next
  case (2 c cs ln r x r')
  have "length r \<le> length (c # cs)"
    unfolding 2(2) by (rule length_dropWhile_le)
  moreover have "length (tl r') \<le> length r'" by simp
  ultimately show ?case using 2(3) by (auto simp del: length_tl)
qed

fun join_nl :: "string list \<Rightarrow> string" where
  \<comment> \<open>\<^verbatim>\<open>"\n".join(lines)\<close>\<close>
  "join_nl [] = []"
| "join_nl [l] = l"
| "join_nl (l # ls) = l @ NL # join_nl ls"

definition clean_text :: "string \<Rightarrow> string" where
  "clean_text t =
     (let lines = map strip (splitlines t);
          lines = filter (\<lambda>ln. ln \<noteq> [] \<and> ln \<noteq> ''d'') lines
      in join_nl lines)"

section \<open>The question parser: \<^verbatim>\<open>parse_questions\<close>\<close>

record MCQ =
  num :: int
  stem :: string
  options :: "(string \<times> string) list"
  answer :: string

text \<open>
  The \<^verbatim>\<open>options\<close> dictionary is an association list in insertion order; an assignment
  \<^verbatim>\<open>options[k] = v\<close> is \<^const>\<open>AList.update\<close>, which replaces the value of a key that is
  present and appends a new key otherwise.
\<close>

datatype error =
    ValueError string  \<comment> \<open>the \<^verbatim>\<open>raise ValueError(...)\<close> of line 80, with its message\<close>
  | IndexError         \<comment> \<open>\<^verbatim>\<open>opts[0]\<close> on an empty list, line 85\<close>

subsection \<open>String helpers\<close>

fun find_str :: "string \<Rightarrow> string \<Rightarrow> nat option" where
  \<comment> \<open>index of the first occurrence of \<open>sub\<close>, as \<^verbatim>\<open>s.find(sub)\<close>; \<open>None\<close> for \<^verbatim>\<open>-1\<close>\<close>
  "find_str sub [] = (if sub = [] then Some 0 else None)"
| "find_str sub (c # cs) =
     (if starts_with sub (c # cs) then Some 0 else map_option Suc (find_str sub cs))"

definition contains :: "string \<Rightarrow> string \<Rightarrow> bool" where
  \<comment> \<open>\<^verbatim>\<open>sub in s\<close>\<close>
  "contains sub s \<longleftrightarrow> find_str sub s \<noteq> None"

definition split1 :: "string \<Rightarrow> string \<Rightarrow> string list" where
  \<comment> \<open>\<^verbatim>\<open>s.split(sep, 1)\<close>\<close>
  "split1 sep s =
     (case find_str sep s of
        None \<Rightarrow> [s]
      | Some i \<Rightarrow> [take i s, drop (i + length sep) s])"

definition lower_chr :: "char \<Rightarrow> char" where
  "lower_chr c =
     (let n = (of_char c :: nat)
      in if (0x41 \<le> n \<and> n \<le> 0x5A) \<or> (0xC0 \<le> n \<and> n \<le> 0xDE \<and> n \<noteq> 0xD7)
         then char_of (n + 32) else c)"

definition lower :: "string \<Rightarrow> string" where
  \<comment> \<open>\<^verbatim>\<open>s.lower()\<close>\<close>
  "lower s = map lower_chr s"

definition upper_chr :: "char \<Rightarrow> string" where
  \<comment> \<open>the upper case of one character; that of the sharp s (0xDF) is two characters\<close>
  "upper_chr c =
     (let n = (of_char c :: nat)
      in if (0x61 \<le> n \<and> n \<le> 0x7A) \<or> (0xE0 \<le> n \<and> n \<le> 0xFE \<and> n \<noteq> 0xF7)
         then [char_of (n - 32)]
         else if n = 0xDF then ''SS'' else [c])"

definition upper :: "string \<Rightarrow> string" where
  \<comment> \<open>\<^verbatim>\<open>s.upper()\<close>. The upper case of the code points 0xB5 and 0xFF lies beyond 255;
      these two are left as they are here\<close>
  "upper s = concat (map upper_chr s)"

definition digit_chr :: "nat \<Rightarrow> char" where
  "digit_chr d = ''0123456789'' ! d"

fun str_nat :: "nat \<Rightarrow> string" where
  "str_nat n = (if n < 10 then [digit_chr n] else str_nat (n div 10) @ [digit_chr (n mod 10)])"

declare str_nat.simps [simp del]

definition str_int :: "int \<Rightarrow> string" where
  \<comment> \<open>\<^verbatim>\<open>str(i)\<close>, the rendering of \<^verbatim>\<open>{num}\<close> in an f-string\<close>
  "str_int i = (if i < 0 then ''-'' @ str_nat (nat (- i)) else str_nat (nat i))"

definition digit_val :: "char \<Rightarrow> int" where
  "digit_val c = int (of_char c) - 48"

definition int_of_str :: "string \<Rightarrow> int" where
  \<comment> \<open>\<^verbatim>\<open>int(ds)\<close> on a non-empty string of digits, as an unbounded integer (the
      interpreter's limit on the length of a digit string is not modelled)\<close>
  "int_of_str ds = foldl (\<lambda>n c. 10 * n + digit_val c) 0 ds"

subsection \<open>The patterns\<close>

definition starts_num :: "string \<Rightarrow> bool" where
  \<comment> \<open>the lookahead \<^verbatim>\<open>(?=\d+\.)\<close>: the longest run of digits is not empty and a period
      follows it (a shorter run is followed by a digit, so backtracking adds nothing)\<close>
  "starts_num s \<longleftrightarrow>
     takeWhile is_digit s \<noteq> [] \<and> starts_with ''.'' (dropWhile is_digit s)"

fun split_blocks :: "string \<Rightarrow> string list" where
  \<comment> \<open>\<^verbatim>\<open>re.split(r"\n(?=\d+\.)", s)\<close>: every newline that a question number follows ends
      the current piece and is dropped\<close>
  "split_blocks [] = [[]]"
| "split_blocks (c # cs) =
     (if c = NL \<and> starts_num cs then [] # split_blocks cs
      else (case split_blocks cs of
              [] \<Rightarrow> [[c]]
            | b # bs \<Rightarrow> (c # b) # bs))"

definition match_block :: "string \<Rightarrow> (string \<times> string) option" where
  \<comment> \<open>\<^verbatim>\<open>re.match(r"(\d+)\.\n(.*)", block, re.S)\<close>: groups 1 and 2\<close>
  "match_block block =
     (let ds = takeWhile is_digit block; r = dropWhile is_digit block
      in if ds \<noteq> [] \<and> starts_with (''.'' @ [NL]) r then Some (ds, drop 2 r) else None)"

definition match_ans :: "string \<Rightarrow> string option" where
  \<comment> \<open>\<^verbatim>\<open>ANS:\s*([A-D])\<close> anchored at the head of \<open>s\<close>: group 1. The letters A to D are
      not whitespace, so only the longest run of whitespace can be followed by one\<close>
  "match_ans s =
     (if starts_with ''ANS:'' s
      then (case dropWhile is_space (drop 4 s) of
              [] \<Rightarrow> None
            | c # _ \<Rightarrow> if c \<in> set ''ABCD'' then Some [c] else None)
      else None)"

fun search_ans :: "string \<Rightarrow> string option" where
  \<comment> \<open>\<^verbatim>\<open>re.search(r"ANS:\s*([A-D])", body)\<close>: group 1 of the leftmost match\<close>
  "search_ans [] = None"
| "search_ans (c # cs) =
     (case match_ans (c # cs) of
        Some g \<Rightarrow> Some g
      | None \<Rightarrow> search_ans cs)"

record opt_match =
  m_start :: nat   \<comment> \<open>\<^verbatim>\<open>o.start()\<close>\<close>
  m_group :: string  \<comment> \<open>\<^verbatim>\<open>o.group(1)\<close>\<close>
  m_end :: nat     \<comment> \<open>\<^verbatim>\<open>o.end()\<close>\<close>

definition match_opt :: "string \<Rightarrow> (string \<times> nat) option" where
  \<comment> \<open>\<^verbatim>\<open>\n([a-d])\.\s+\<close> anchored at the head of \<open>s\<close>: group 1 and the length of the
      match, which takes the whole run of whitespace after the period\<close>
  "match_opt s =
     (case s of
        n # l # d # r \<Rightarrow>
          if n = NL \<and> l \<in> set ''abcd'' \<and> d = CHR ''.'' \<and> takeWhile is_space r \<noteq> []
          then Some ([l], 3 + length (takeWhile is_space r))
          else None
      | _ \<Rightarrow> None)"

function finditer_opt :: "nat \<Rightarrow> string \<Rightarrow> opt_match list" where
  \<comment> \<open>\<^verbatim>\<open>re.finditer(r"\n([a-d])\.\s+", s)\<close> on the suffix of \<open>s\<close> that starts at offset
      \<open>off\<close>: the matches from left to right, each search resuming where the last match
      ended\<close>
  "finditer_opt off [] = []"
| "finditer_opt off (c # cs) =
     (case match_opt (c # cs) of
        Some (g, n) \<Rightarrow>
          \<lparr>m_start = off, m_group = g, m_end = off + n\<rparr>
            # finditer_opt (off + n) (drop n (c # cs))
      | None \<Rightarrow> finditer_opt (Suc off) cs)"
  by pat_completeness auto
termination
  by (relation "measure (\<lambda>(off, s). length s)")
     (auto simp: match_opt_def split: list.splits if_splits)

function collapse_nl :: "string \<Rightarrow> string" where
  \<comment> \<open>\<^verbatim>\<open>re.sub(r"\n+", " ", s)\<close>\<close>
  "collapse_nl [] = []"
| "collapse_nl (c # cs) =
     (if c = NL then CHR '' '' # collapse_nl (dropWhile (\<lambda>x. x = NL) cs)
      else c # collapse_nl cs)"
  by pat_completeness auto
termination
  by (relation "measure length")
     (auto simp: less_Suc_eq_le length_dropWhile_le)

subsection \<open>One block, and the loop over the blocks\<close>

definition option_text :: "string \<Rightarrow> nat \<Rightarrow> nat \<Rightarrow> string" where
  \<comment> \<open>the right-hand side of line 93\<close>
  "option_text s start end = strip (collapse_nl (slice s start end))"

fun build_options ::
  "string \<Rightarrow> opt_match list \<Rightarrow> (string \<times> string) list \<Rightarrow> (string \<times> string) list" where
  \<comment> \<open>the loop of lines 89 to 93 over \<open>s = "\n" + body\<close>; the third argument is the
      dictionary built so far\<close>
  "build_options s [] acc = acc"
| "build_options s (o1 # os) acc =
     (let letter = m_group o1;
          start = m_end o1;
          end = (case os of [] \<Rightarrow> length s | o2 # _ \<Rightarrow> m_start o2)
      in build_options s os (AList.update letter (option_text s start end) acc))"

definition parse_block :: "string \<Rightarrow> error + MCQ option" where
  \<comment> \<open>the body of the loop of lines 66 to 95: \<open>Inr None\<close> is \<^verbatim>\<open>continue\<close>, \<open>Inr (Some q)\<close>
      is the record appended\<close>
  "parse_block block0 =
     (let block = strip block0
      in if block = [] then Inr None
         else (case match_block block of
           None \<Rightarrow> Inr None
         | Some (ds, body) \<Rightarrow>
             (let n = int_of_str ds
              in (case search_ans body of
                None \<Rightarrow> Inl (ValueError (''Missing ANS for question '' @ str_int n))
              | Some g \<Rightarrow>
                  (let ans = lower g;
                       body' = hd (split1 ''ANS:'' body);
                       s = NL # body';
                       opts = finditer_opt 0 s
                   in (case opts of
                     [] \<Rightarrow> Inl IndexError
                   | o1 # _ \<Rightarrow>
                       (let st = collapse_nl (strip (take (m_start o1) s));
                            opt = build_options s opts []
                        in Inr (Some \<lparr>num = n, stem = st, options = opt, answer = ans\<rparr>))))))))"

fun parse_blocks :: "string list \<Rightarrow> MCQ list \<Rightarrow> error + MCQ list" where
  \<comment> \<open>the \<^verbatim>\<open>for\<close> loop; the second argument is \<^verbatim>\<open>questions\<close>\<close>
  "parse_blocks [] questions = Inr questions"
| "parse_blocks (b # bs) questions =
     (case parse_block b of
        Inl e \<Rightarrow> Inl e
      | Inr None \<Rightarrow> parse_blocks bs questions
      | Inr (Some q) \<Rightarrow> parse_blocks bs (questions @ [q]))"

definition blocks_of :: "string \<Rightarrow> string list" where
  \<comment> \<open>lines 60 to 63: the text after the first \<^verbatim>\<open>MULTIPLE CHOICE\<close>, split into blocks\<close>
  "blocks_of text =
     (let text' = (if contains ''MULTIPLE CHOICE'' text
                   then split1 ''MULTIPLE CHOICE'' text ! 1 else text)
      in split_blocks (NL # text'))"

definition parse_questions :: "string \<Rightarrow> error + MCQ list" where
  "parse_questions text = parse_blocks (blocks_of text) []"

section \<open>The package serializer: \<^verbatim>\<open>write_qti21\<close>\<close>

definition QTI_NS :: string where
  "QTI_NS = ''http://www.imsglobal.org/xsd/imsqti_v2p1''"

definition IMSCP_NS :: string where
  "IMSCP_NS = ''http://www.imsglobal.org/xsd/imscp_v1p1''"

definition RP_MATCH_CORRECT :: string where
  "RP_MATCH_CORRECT = ''http://www.imsglobal.org/question/qti_v2p1/rptemplates/match_correct''"

function replace_str :: "string \<Rightarrow> string \<Rightarrow> string \<Rightarrow> string" where
  \<comment> \<open>\<^verbatim>\<open>s.replace(old, new)\<close> for a non-empty \<open>old\<close>: the occurrences from left to
      right, none overlapping the one before\<close>
  "replace_str old new [] = []"
| "replace_str old new (c # cs) =
     (if old \<noteq> [] \<and> starts_with old (c # cs)
      then new @ replace_str old new (drop (length old) (c # cs))
      else c # replace_str old new cs)"
  by pat_completeness auto
termination
  by (relation "measure (\<lambda>(old, new, s). length s)") auto

definition esc :: "string \<Rightarrow> string" where
  \<comment> \<open>\<^verbatim>\<open>html.escape(s, quote=False)\<close>: the three replacements of the library function,
      the ampersand first\<close>
  "esc s = replace_str ''>'' ''&gt;'' (replace_str ''<'' ''&lt;'' (replace_str ''&'' ''&amp;'' s))"

definition zfill :: "nat \<Rightarrow> string \<Rightarrow> string" where
  "zfill w s = replicate (w - length s) (CHR ''0'') @ s"

definition fmt_03d :: "int \<Rightarrow> string" where
  \<comment> \<open>the format \<^verbatim>\<open>{num:03d}\<close>: zero padding to a width of three, the sign counted\<close>
  "fmt_03d i =
     (if i < 0 then ''-'' @ zfill 2 (str_nat (nat (- i))) else zfill 3 (str_nat (nat i)))"

definition item_id :: "MCQ \<Rightarrow> string" where
  "item_id q = ''Q'' @ fmt_03d (num q)"

definition choice_line :: "string \<times> string \<Rightarrow> string" where
  \<open>choice_line kv =
     ''      <simpleChoice identifier="CHOICE_'' @ upper (fst kv) @ ''">'' @ esc (snd kv)
       @ ''</simpleChoice>''\<close>

definition item_xml :: "MCQ \<Rightarrow> string list" where
  \<comment> \<open>the lines of one item document; \<^verbatim>\<open>sorted(q.options.items())\<close> orders the pairs
      by key, then value, strings compared code point by code point\<close>
  \<open>item_xml q =
     [''<?xml version="1.0" encoding="UTF-8"?>'',
      ''<assessmentItem xmlns="'' @ QTI_NS @ ''" identifier="'' @ item_id q
        @ ''" title="Question '' @ str_int (num q)
        @ ''" adaptive="false" timeDependent="false">'',
      ''  <responseDeclaration identifier="RESPONSE" cardinality="single" baseType="identifier">'',
      ''    <correctResponse><value>CHOICE_'' @ upper (answer q)
        @ ''</value></correctResponse>'',
      ''  </responseDeclaration>'',
      ''  <itemBody>'',
      ''    <choiceInteraction responseIdentifier="RESPONSE" maxChoices="1">'',
      ''      <prompt>'' @ esc (stem q) @ ''</prompt>'']
     @ map choice_line (sort (options q))
     @ [''    </choiceInteraction>'',
        ''  </itemBody>'',
        ''  <responseProcessing template="'' @ RP_MATCH_CORRECT @ ''"/>'',
        ''</assessmentItem>'']\<close>

definition item_rel :: "MCQ \<Rightarrow> string" where
  "item_rel q = ''items/'' @ item_id q @ ''.xml''"

definition item_files :: "MCQ list \<Rightarrow> string list" where
  \<comment> \<open>the list \<^verbatim>\<open>item_files\<close> after the loop of lines 108 to 135\<close>
  "item_files questions = map item_rel questions"

definition test_xml :: "MCQ list \<Rightarrow> string \<Rightarrow> string list" where
  \<open>test_xml questions title =
     [''<?xml version="1.0" encoding="UTF-8"?>'',
      ''<assessmentTest xmlns="'' @ QTI_NS @ ''" identifier="TEST1" title="'' @ esc title
        @ ''">'',
      ''  <testPart identifier="part1" navigationMode="linear" submissionMode="individual">'',
      ''    <assessmentSection identifier="section1" visible="true">'']
     @ map (\<lambda>f. ''      <assessmentItemRef href="'' @ f @ ''"/>'') (item_files questions)
     @ [''    </assessmentSection>'', ''  </testPart>'', ''</assessmentTest>'']\<close>

definition manifest :: "MCQ list \<Rightarrow> string list" where
  \<open>manifest questions =
     [''<?xml version="1.0" encoding="UTF-8"?>'',
      ''<manifest xmlns="'' @ IMSCP_NS @ ''" xmlns:imsqti="'' @ QTI_NS @ ''">'',
      ''  <resources>'',
      ''    <resource type="imsqti_test_xmlv2p1" href="assessmentTest.xml">'',
      ''      <file href="assessmentTest.xml"/>'']
     @ map (\<lambda>f. ''      <file href="'' @ f @ ''"/>'') (item_files questions)
     @ [''    </resource>'', ''  </resources>'', ''</manifest>'']\<close>

record package =
  written :: "(string \<times> string) list"
    \<comment> \<open>the \<^verbatim>\<open>write_text\<close> calls in order: path below the work directory, and text\<close>
  zipped :: "string list"
    \<comment> \<open>the archive names of the \<^verbatim>\<open>z.write\<close> calls in order\<close>

definition write_qti21 :: "MCQ list \<Rightarrow> string \<Rightarrow> package" where
  "write_qti21 questions title =
     \<lparr>written =
        map (\<lambda>q. (item_rel q, join_nl (item_xml q))) questions
        @ [(''assessmentTest.xml'', join_nl (test_xml questions title)),
           (''imsmanifest.xml'', join_nl (manifest questions))],
      zipped = [''imsmanifest.xml'', ''assessmentTest.xml''] @ item_files questions\<rparr>"

section \<open>The markup stripper: \<^verbatim>\<open>rtf_to_text\<close>\<close>

function re_sub :: "(string \<Rightarrow> nat option) \<Rightarrow> (string \<Rightarrow> string) \<Rightarrow> string \<Rightarrow> string" where
  \<comment> \<open>\<^verbatim>\<open>re.sub\<close> for a pattern that matches no empty string: \<open>m s\<close> is the length of the
      match anchored at the head of \<open>s\<close>, and \<open>repl\<close> maps the matched text to its
      replacement; the scan resumes where a match ended\<close>
  "re_sub m repl [] = []"
| "re_sub m repl (c # cs) =
     (case m (c # cs) of
        Some (Suc k) \<Rightarrow> repl (take (Suc k) (c # cs)) @ re_sub m repl (drop k cs)
      | _ \<Rightarrow> c # re_sub m repl cs)"
  by pat_completeness auto
termination
  by (relation "measure (\<lambda>(m, repl, s). length s)") auto

definition is_hex :: "char \<Rightarrow> bool" where
  "is_hex c \<longleftrightarrow> c \<in> set ''0123456789abcdefABCDEF''"

definition is_alpha :: "char \<Rightarrow> bool" where
  \<comment> \<open>the class \<^verbatim>\<open>[a-zA-Z]\<close>\<close>
  "is_alpha c \<longleftrightarrow> c \<in> set ''abcdefghijklmnopqrstuvwxyzABCDEFGHIJKLMNOPQRSTUVWXYZ''"

definition hex_val :: "char \<Rightarrow> nat" where
  "hex_val c =
     (let n = (of_char c :: nat)
      in if is_digit c then n - 48 else if n \<ge> 97 then n - 87 else n - 55)"

definition match_hex :: "string \<Rightarrow> nat option" where
  \<comment> \<open>\<^verbatim>\<open>\\'([0-9a-fA-F]{2})\<close>\<close>
  "match_hex s =
     (case s of
        b # q # h1 # h2 # _ \<Rightarrow>
          if b = BSL \<and> q = CHR 0x27 \<and> is_hex h1 \<and> is_hex h2 then Some 4 else None
      | _ \<Rightarrow> None)"

definition hex_repl :: "string \<Rightarrow> string" where
  \<comment> \<open>\<^verbatim>\<open>bytes.fromhex(m.group(1)).decode("latin-1")\<close> of the four matched characters\<close>
  "hex_repl mt = [char_of (16 * hex_val (mt ! 2) + hex_val (mt ! 3))]"

definition not_brace :: "char \<Rightarrow> bool" where
  \<comment> \<open>the class \<^verbatim>\<open>[^{}]\<close>\<close>
  "not_brace c \<longleftrightarrow> c \<noteq> CHR ''{'' \<and> c \<noteq> CHR ''}''"

definition match_star_group :: "string \<Rightarrow> nat option" where
  \<comment> \<open>\<^verbatim>\<open>{\\\*[^{}]*}\<close>: an opening brace, a backslash, a star, the longest run of
      characters that are not braces, and a closing brace\<close>
  "match_star_group s =
     (if starts_with (''{'' @ [BSL] @ ''*'') s
      then (let inner = takeWhile not_brace (drop 3 s)
            in if starts_with ''}'' (dropWhile not_brace (drop 3 s))
               then Some (3 + length inner + 1) else None)
      else None)"

definition rm_star_groups :: "string \<Rightarrow> string" where
  \<comment> \<open>line 46: \<^verbatim>\<open>re.sub(r"{\\\*[^{}]*}", "", s)\<close>\<close>
  "rm_star_groups s = re_sub match_star_group (\<lambda>_. []) s"

definition match_ctrl :: "string \<Rightarrow> nat option" where
  \<comment> \<open>\<^verbatim>\<open>\\[a-zA-Z]+-?\d* ?\<close>: every part after the letters is optional and greedy\<close>
  "match_ctrl s =
     (case s of
        [] \<Rightarrow> None
      | b # r \<Rightarrow>
          if b = BSL \<and> takeWhile is_alpha r \<noteq> []
          then (let r1 = dropWhile is_alpha r;
                    r2 = (if starts_with ''-'' r1 then tl r1 else r1);
                    r3 = dropWhile is_digit r2;
                    r4 = (if starts_with '' '' r3 then tl r3 else r3)
                in Some (length s - length r4))
          else None)"

definition match_nl3 :: "string \<Rightarrow> nat option" where
  \<comment> \<open>\<^verbatim>\<open>\n{3,}\<close>\<close>
  "match_nl3 s =
     (let n = length (takeWhile (\<lambda>x. x = NL) s) in if 3 \<le> n then Some n else None)"

definition rtf_to_text :: "string \<Rightarrow> string" where
  \<comment> \<open>lines 41 to 50, on the text \<open>s\<close> that the decoding of line 40 gives\<close>
  "rtf_to_text s0 =
     (let s = re_sub match_hex hex_repl s0;
          s = replace_str (BSL # ''line'') [NL] (replace_str (BSL # ''par'') [NL] s);
          s = replace_str [BSL, BSL] [BSL]
                (replace_str (BSL # ''}'') ''}'' (replace_str (BSL # ''{'') ''{'' s));
          s = rm_star_groups s;
          s = re_sub match_ctrl (\<lambda>_. []) s;
          s = replace_str ''}'' [] (replace_str ''{'' [] s);
          s = re_sub match_nl3 (\<lambda>_. [NL, NL]) s
      in strip s)"

section \<open>Properties of the text normalizer\<close>

lemma strip_fixed:
  assumes "s = [] \<or> (\<not> is_space (hd s) \<and> \<not> is_space (last s))"
  shows "strip s = s"
proof (cases "s = []")
  case True
  then show ?thesis by (simp add: strip_def)
next
  case False
  with assms have h: "\<not> is_space (hd s)" and l: "\<not> is_space (last s)" by auto
  from False h have a: "dropWhile is_space s = s" by (cases s) auto
  from False l have "\<not> is_space (hd (rev s))" by (simp add: hd_rev)
  with False have b: "dropWhile is_space (rev s) = rev s" by (cases "rev s") auto
  show ?thesis by (simp add: strip_def a b)
qed

lemma strip_shape: "strip s = [] \<or> (\<not> is_space (hd (strip s)) \<and> \<not> is_space (last (strip s)))"
proof (cases "strip s = []")
  case True
  then show ?thesis by simp
next
  case False
  define u where "u = dropWhile is_space s"
  define v where "v = dropWhile is_space (rev u)"
  have sv: "strip s = rev v" by (simp add: strip_def u_def v_def)
  with False have vne: "v \<noteq> []" by simp
  then have hv: "\<not> is_space (hd v)" unfolding v_def by (rule hd_dropWhile)
  from vne have une: "u \<noteq> []" unfolding v_def by auto
  then have hu: "\<not> is_space (hd u)" unfolding u_def by (rule hd_dropWhile)
  obtain w where w: "rev u = w @ v"
    unfolding v_def by (metis takeWhile_dropWhile_id)
  from vne w have "last v = last (rev u)" by simp
  also have "\<dots> = hd u" using une by (simp add: last_rev)
  finally have lv: "\<not> is_space (last v)" using hu by simp
  show ?thesis using sv vne hv lv by (simp add: hd_rev last_rev)
qed

lemma strip_idem: "strip (strip s) = strip s"
  by (rule strip_fixed) (rule strip_shape)

lemma set_strip: "set (strip s) \<subseteq> set s"
proof -
  have "set (strip s) = set (dropWhile is_space (rev (dropWhile is_space s)))"
    by (simp add: strip_def)
  also have "\<dots> \<subseteq> set (rev (dropWhile is_space s))" by (rule set_dropWhileD[THEN subsetI]) 
  also have "\<dots> \<subseteq> set s" using set_dropWhileD by fastforce
  finally show ?thesis .
qed

lemma splitlines_no_break: "l \<in> set (splitlines t) \<Longrightarrow> c \<in> set l \<Longrightarrow> \<not> is_linebreak c"
proof (induction t arbitrary: l rule: splitlines.induct)
  case 1
  then show ?case by simp
next
  case (2 a cs)
  define r where "r = dropWhile (\<lambda>x. \<not> is_linebreak x) (a # cs)"
  define ln where "ln = takeWhile (\<lambda>x. \<not> is_linebreak x) (a # cs)"
  have lnok: "\<And>x. x \<in> set ln \<Longrightarrow> \<not> is_linebreak x"
    unfolding ln_def by (auto dest: set_takeWhileD)
  show ?case
  proof (cases r)
    case Nil
    with 2(2) have "l = ln" by (simp add: r_def[symmetric] ln_def[symmetric] del: takeWhile.simps dropWhile.simps)
    with lnok 2(3) show ?thesis by blast
  next
    case (Cons x r')
    with 2(2) have "l = ln \<or> l \<in> set (splitlines (if x = CR \<and> starts_with [NL] r' then tl r' else r'))"
      by (simp add: r_def[symmetric] ln_def[symmetric] del: takeWhile.simps dropWhile.simps)
    then show ?thesis
    proof
      assume "l = ln" with lnok 2(3) show ?thesis by blast
    next
      assume "l \<in> set (splitlines (if x = CR \<and> starts_with [NL] r' then tl r' else r'))"
      from 2(1)[OF ln_def r_def Cons this 2(3)] show ?thesis .
    qed
  qed
qed

lemma splitlines_unfold:
  assumes "s \<noteq> []"
  shows "splitlines s =
     (case dropWhile (\<lambda>x. \<not> is_linebreak x) s of
        [] \<Rightarrow> [takeWhile (\<lambda>x. \<not> is_linebreak x) s]
      | x # r' \<Rightarrow> takeWhile (\<lambda>x. \<not> is_linebreak x) s #
            splitlines (if x = CR \<and> starts_with [NL] r' then tl r' else r'))"
proof -
  obtain a cs where l: "s = a # cs" using assms by (cases s) auto
  show ?thesis unfolding l by (simp only: splitlines.simps Let_def)
qed

lemma splitlines_line:
  assumes "l \<noteq> []" and "\<forall>c\<in>set l. \<not> is_linebreak c"
  shows "splitlines l = [l]"
proof -
  have t: "takeWhile (\<lambda>x. \<not> is_linebreak x) l = l" using assms(2) by (simp add: takeWhile_eq_all_conv)
  have d: "dropWhile (\<lambda>x. \<not> is_linebreak x) l = []" using assms(2) by simp
  show ?thesis by (simp only: splitlines_unfold[OF assms(1)] t d list.case)
qed

lemma splitlines_line_NL:
  assumes "l \<noteq> []" and "\<forall>c\<in>set l. \<not> is_linebreak c"
  shows "splitlines (l @ NL # rest) = l # splitlines rest"
proof -
  have ne: "l @ NL # rest \<noteq> []" by simp
  have nl: "is_linebreak NL" by (simp add: is_linebreak_def)
  have t: "takeWhile (\<lambda>x. \<not> is_linebreak x) (l @ NL # rest) = l"
    using assms(2) nl by (simp add: takeWhile_append2)
  have d: "dropWhile (\<lambda>x. \<not> is_linebreak x) (l @ NL # rest) = NL # rest"
    using assms(2) nl by (simp add: dropWhile_append2)
  have c: "(if NL = CR \<and> starts_with [NL] rest then tl rest else rest) = rest" by simp
  show ?thesis by (simp only: splitlines_unfold[OF ne] t d list.case c)
qed

lemma splitlines_join:
  assumes "\<forall>l\<in>set ls. l \<noteq> [] \<and> (\<forall>c\<in>set l. \<not> is_linebreak c)"
  shows "splitlines (join_nl ls) = ls"
  using assms
proof (induction ls rule: join_nl.induct)
  case 1
  then show ?case by simp
next
  case (2 l)
  then show ?case by (simp add: splitlines_line)
next
  case (3 l v va)
  then show ?case by (simp add: splitlines_line_NL del: splitlines.simps)
qed

lemma clean_text_lines:
  "\<exists>ls. clean_text t = join_nl ls \<and> splitlines (join_nl ls) = ls \<and>
     (\<forall>l\<in>set ls. strip l = l \<and> l \<noteq> [] \<and> l \<noteq> ''d'')"
proof -
  define ls where "ls = filter (\<lambda>ln. ln \<noteq> [] \<and> ln \<noteq> ''d'') (map strip (splitlines t))"
  have ct: "clean_text t = join_nl ls" by (simp add: clean_text_def ls_def)
  have ok: "\<forall>l\<in>set ls. l \<noteq> [] \<and> (\<forall>c\<in>set l. \<not> is_linebreak c)"
    unfolding ls_def using splitlines_no_break set_strip by fastforce
  have st: "\<forall>l\<in>set ls. strip l = l \<and> l \<noteq> [] \<and> l \<noteq> ''d''"
    unfolding ls_def by (auto simp: strip_idem)
  from ct splitlines_join[OF ok] st show ?thesis by blast
qed

text \<open>
  C7. The text normalizer is idempotent: \<open>clean_text (clean_text t) = clean_text t\<close> for
  every text \<open>t\<close>; and no line of its output is blank or equal to \<open>d\<close>, also after
  stripping.
\<close>

theorem clean_text_idempotent:
  "clean_text (clean_text t) = clean_text t \<and>
   (\<forall>l\<in>set (splitlines (clean_text t)). strip l \<noteq> [] \<and> strip l \<noteq> ''d'')"
proof -
  obtain ls where ct: "clean_text t = join_nl ls" and sp: "splitlines (join_nl ls) = ls"
    and st: "\<forall>l\<in>set ls. strip l = l \<and> l \<noteq> [] \<and> l \<noteq> ''d''"
    using clean_text_lines by blast
  have m: "map strip ls = ls" by (rule map_idI) (simp add: st)
  have f: "filter (\<lambda>ln. ln \<noteq> [] \<and> ln \<noteq> ''d'') ls = ls" using st by (simp add: filter_id_conv)
  have "clean_text (join_nl ls) = join_nl ls"
    by (simp add: clean_text_def sp m f)
  moreover have "\<forall>l\<in>set (splitlines (join_nl ls)). strip l \<noteq> [] \<and> strip l \<noteq> ''d''"
    using st by (simp add: sp)
  ultimately show ?thesis by (simp add: ct)
qed

theorem clean_text_idempotent_witness:
  "''a'' \<in> set (splitlines (clean_text '' a \<newline>\<newline>d\<newline> b'')) \<and>
   strip ''a'' \<noteq> [] \<and> strip ''a'' \<noteq> ''d'' \<and>
   clean_text (clean_text '' a \<newline>\<newline>d\<newline> b'') = clean_text '' a \<newline>\<newline>d\<newline> b''"
proof -
  have m: "''a'' \<in> set (splitlines (clean_text '' a \<newline>\<newline>d\<newline> b''))"
    by code_simp
  from clean_text_idempotent [of "'' a \<newline>\<newline>d\<newline> b''"] m show ?thesis by blast
qed

section \<open>Properties of the package serializer\<close>

lemma replace_str_char:
  "replace_str [a] new s = concat (map (\<lambda>c. if c = a then new else [c]) s)"
  by (induction s) (simp_all add: starts_with_def)

lemma esc_concat_map:
  "esc s = concat (map (\<lambda>c. if c = CHR ''&'' then ''&amp;''
                             else if c = CHR ''<'' then ''&lt;''
                             else if c = CHR ''>'' then ''&gt;'' else [c]) s)"
  unfolding esc_def replace_str_char by (induction s) simp_all

lemma esc_append: "esc (s @ t) = esc s @ esc t"
  by (simp add: esc_concat_map)

lemma fmt_03d_123: "fmt_03d 1 = ''001''" "fmt_03d 2 = ''002''" "fmt_03d 3 = ''003''"
  by code_simp+

text \<open>
  C9. Option text is escaped for the ampersand, less-than and greater-than, and for
  nothing else: \<open>esc\<close> replaces each of these three characters by its entity and copies
  every other character, quote characters included. The option text \<open>A & B < C\<close> is
  rendered in the choice element of the item document as \<open>A &amp; B &lt; C\<close>; in every
  item document the choice lines carry the escaped text of the options, sorted by letter.
\<close>

theorem esc_option_text:
  \<open>esc s = concat (map (\<lambda>c. if c = CHR ''&'' then ''&amp;''
                             else if c = CHR ''<'' then ''&lt;''
                             else if c = CHR ''>'' then ''&gt;'' else [c]) s) \<and>
   esc ''A & B < C'' = ''A &amp; B &lt; C'' \<and>
   esc ''x > y'' = ''x &gt; y'' \<and>
   esc (''say "A" or '' @ [CHR 0x27] @ ''B'' @ [CHR 0x27]) =
     ''say "A" or '' @ [CHR 0x27] @ ''B'' @ [CHR 0x27] \<and>
   esc (s @ [CHR 0x22] @ t) = esc s @ [CHR 0x22] @ esc t \<and>
   esc (s @ [CHR 0x27] @ t) = esc s @ [CHR 0x27] @ esc t \<and>
   take (length (options q)) (drop 8 (item_xml q)) =
     map (\<lambda>kv. ''      <simpleChoice identifier="CHOICE_'' @ upper (fst kv) @ ''">''
                  @ esc (snd kv) @ ''</simpleChoice>'') (sort (options q)) \<and>
   item_xml \<lparr>num = n, stem = st, options = [(''a'', ''A & B < C'')], answer = an\<rparr> ! 8 =
     ''      <simpleChoice identifier="CHOICE_A">A &amp; B &lt; C</simpleChoice>''\<close>
proof -
  have a: "esc ''A & B < C'' = ''A &amp; B &lt; C''" "esc ''x > y'' = ''x &gt; y''"
    by code_simp+
  have q: \<open>esc (''say "A" or '' @ [CHR 0x27] @ ''B'' @ [CHR 0x27]) =
     ''say "A" or '' @ [CHR 0x27] @ ''B'' @ [CHR 0x27]\<close> by code_simp
  have u: "upper ''a'' = ''A''" by code_simp
  have b: \<open>item_xml \<lparr>num = n, stem = st, options = [(''a'', ''A & B < C'')], answer = an\<rparr> ! 8 =
     ''      <simpleChoice identifier="CHOICE_A">A &amp; B &lt; C</simpleChoice>''\<close>
    by (simp add: item_xml_def choice_line_def a u)
  have c: "esc [CHR 0x22] = [CHR 0x22]" "esc [CHR 0x27] = [CHR 0x27]" by code_simp+
  have d: "esc (s @ [CHR 0x22] @ t) = esc s @ [CHR 0x22] @ esc t"
    by (simp only: esc_append c)
  have e: "esc (s @ [CHR 0x27] @ t) = esc s @ [CHR 0x27] @ esc t"
    by (simp only: esc_append c)
  have l: "length (map choice_line (sort (options q))) = length (options q)" by simp
  have f: \<open>take (length (options q)) (drop 8 (item_xml q)) =
     map (\<lambda>kv. ''      <simpleChoice identifier="CHOICE_'' @ upper (fst kv) @ ''">''
                  @ esc (snd kv) @ ''</simpleChoice>'') (sort (options q))\<close>
  proof -
    have "take (length (options q)) (drop 8 (item_xml q)) = map choice_line (sort (options q))"
      unfolding item_xml_def by (simp add: l)
    also have \<open>\<dots> = map (\<lambda>kv. ''      <simpleChoice identifier="CHOICE_'' @ upper (fst kv) @ ''">''
                  @ esc (snd kv) @ ''</simpleChoice>'') (sort (options q))\<close>
      by (rule map_cong) (simp_all add: choice_line_def)
    finally show ?thesis .
  qed
  from esc_concat_map[of s] a q b d e f show ?thesis by blast
qed

text \<open>
  C8. The serializer keeps the order of appearance and never sorts by number. For any
  sequence of records it writes one item file per record, named after the number of the
  record, in the order of the sequence, then the test document, whose item references
  are these names in the same order, then the manifest. For records numbered 1, 3, 2 in
  that order the item files are \<open>items/Q001.xml\<close>, \<open>items/Q003.xml\<close>,
  \<open>items/Q002.xml\<close> and the test document written lists these three references in
  that order.
\<close>

theorem write_qti21_appearance_order:
  \<open>written (write_qti21 qs title) =
     map (\<lambda>q. (''items/Q'' @ fmt_03d (num q) @ ''.xml'', join_nl (item_xml q))) qs
     @ [(''assessmentTest.xml'',
         join_nl
          ([''<?xml version="1.0" encoding="UTF-8"?>'',
            ''<assessmentTest xmlns="http://www.imsglobal.org/xsd/imsqti_v2p1" identifier="TEST1" title="''
              @ esc title @ ''">'',
            ''  <testPart identifier="part1" navigationMode="linear" submissionMode="individual">'',
            ''    <assessmentSection identifier="section1" visible="true">'']
           @ map (\<lambda>q. ''      <assessmentItemRef href="items/Q'' @ fmt_03d (num q) @ ''.xml"/>'') qs
           @ [''    </assessmentSection>'', ''  </testPart>'', ''</assessmentTest>''])),
        (''imsmanifest.xml'',
         join_nl
          ([''<?xml version="1.0" encoding="UTF-8"?>'',
            ''<manifest xmlns="http://www.imsglobal.org/xsd/imscp_v1p1" xmlns:imsqti="http://www.imsglobal.org/xsd/imsqti_v2p1">'',
            ''  <resources>'',
            ''    <resource type="imsqti_test_xmlv2p1" href="assessmentTest.xml">'',
            ''      <file href="assessmentTest.xml"/>'']
           @ map (\<lambda>q. ''      <file href="items/Q'' @ fmt_03d (num q) @ ''.xml"/>'') qs
           @ [''    </resource>'', ''  </resources>'', ''</manifest>'']))] \<and>
   zipped (write_qti21 qs title) =
     [''imsmanifest.xml'', ''assessmentTest.xml'']
     @ map (\<lambda>q. ''items/Q'' @ fmt_03d (num q) @ ''.xml'') qs \<and>
   item_files [\<lparr>num = 1, stem = s1, options = o1, answer = a1\<rparr>,
               \<lparr>num = 3, stem = s2, options = o2, answer = a2\<rparr>,
               \<lparr>num = 2, stem = s3, options = o3, answer = a3\<rparr>] =
     [''items/Q001.xml'', ''items/Q003.xml'', ''items/Q002.xml''] \<and>
   written (write_qti21
              [\<lparr>num = 1, stem = s1, options = o1, answer = a1\<rparr>,
               \<lparr>num = 3, stem = s2, options = o2, answer = a2\<rparr>,
               \<lparr>num = 2, stem = s3, options = o3, answer = a3\<rparr>] title) =
     [(''items/Q001.xml'', join_nl (item_xml \<lparr>num = 1, stem = s1, options = o1, answer = a1\<rparr>)),
      (''items/Q003.xml'', join_nl (item_xml \<lparr>num = 3, stem = s2, options = o2, answer = a2\<rparr>)),
      (''items/Q002.xml'', join_nl (item_xml \<lparr>num = 2, stem = s3, options = o3, answer = a3\<rparr>)),
      (''assessmentTest.xml'',
       join_nl
        [''<?xml version="1.0" encoding="UTF-8"?>'',
         ''<assessmentTest xmlns="http://www.imsglobal.org/xsd/imsqti_v2p1" identifier="TEST1" title="''
           @ esc title @ ''">'',
         ''  <testPart identifier="part1" navigationMode="linear" submissionMode="individual">'',
         ''    <assessmentSection identifier="section1" visible="true">'',
         ''      <assessmentItemRef href="items/Q001.xml"/>'',
         ''      <assessmentItemRef href="items/Q003.xml"/>'',
         ''      <assessmentItemRef href="items/Q002.xml"/>'',
         ''    </assessmentSection>'', ''  </testPart>'', ''</assessmentTest>'']),
      (''imsmanifest.xml'',
       join_nl
        [''<?xml version="1.0" encoding="UTF-8"?>'',
         ''<manifest xmlns="http://www.imsglobal.org/xsd/imscp_v1p1" xmlns:imsqti="http://www.imsglobal.org/xsd/imsqti_v2p1">'',
         ''  <resources>'',
         ''    <resource type="imsqti_test_xmlv2p1" href="assessmentTest.xml">'',
         ''      <file href="assessmentTest.xml"/>'',
         ''      <file href="items/Q001.xml"/>'',
         ''      <file href="items/Q003.xml"/>'',
         ''      <file href="items/Q002.xml"/>'',
         ''    </resource>'', ''  </resources>'', ''</manifest>''])]\<close>
proof -
  have g: \<open>written (write_qti21 qs title) =
     map (\<lambda>q. (''items/Q'' @ fmt_03d (num q) @ ''.xml'', join_nl (item_xml q))) qs
     @ [(''assessmentTest.xml'',
         join_nl
          ([''<?xml version="1.0" encoding="UTF-8"?>'',
            ''<assessmentTest xmlns="http://www.imsglobal.org/xsd/imsqti_v2p1" identifier="TEST1" title="''
              @ esc title @ ''">'',
            ''  <testPart identifier="part1" navigationMode="linear" submissionMode="individual">'',
            ''    <assessmentSection identifier="section1" visible="true">'']
           @ map (\<lambda>q. ''      <assessmentItemRef href="items/Q'' @ fmt_03d (num q) @ ''.xml"/>'') qs
           @ [''    </assessmentSection>'', ''  </testPart>'', ''</assessmentTest>''])),
        (''imsmanifest.xml'',
         join_nl
          ([''<?xml version="1.0" encoding="UTF-8"?>'',
            ''<manifest xmlns="http://www.imsglobal.org/xsd/imscp_v1p1" xmlns:imsqti="http://www.imsglobal.org/xsd/imsqti_v2p1">'',
            ''  <resources>'',
            ''    <resource type="imsqti_test_xmlv2p1" href="assessmentTest.xml">'',
            ''      <file href="assessmentTest.xml"/>'']
           @ map (\<lambda>q. ''      <file href="items/Q'' @ fmt_03d (num q) @ ''.xml"/>'') qs
           @ [''    </resource>'', ''  </resources>'', ''</manifest>'']))]\<close> for qs
    by (simp add: write_qti21_def test_xml_def manifest_def item_files_def item_rel_def
          item_id_def QTI_NS_def IMSCP_NS_def comp_def del: join_nl.simps)
  have z: "zipped (write_qti21 qs title) =
     [''imsmanifest.xml'', ''assessmentTest.xml'']
     @ map (\<lambda>q. ''items/Q'' @ fmt_03d (num q) @ ''.xml'') qs"
    by (simp add: write_qti21_def item_files_def item_rel_def item_id_def)
  have i: "item_files [\<lparr>num = 1, stem = s1, options = o1, answer = a1\<rparr>,
               \<lparr>num = 3, stem = s2, options = o2, answer = a2\<rparr>,
               \<lparr>num = 2, stem = s3, options = o3, answer = a3\<rparr>] =
     [''items/Q001.xml'', ''items/Q003.xml'', ''items/Q002.xml'']"
    by (simp add: item_files_def item_rel_def item_id_def fmt_03d_123)
  show ?thesis
    unfolding g
    by (intro conjI refl z i) (simp add: fmt_03d_123 del: join_nl.simps)
qed

section \<open>Properties of the markup stripper\<close>

lemma match_star_group_flat:
  assumes "\<forall>c\<in>set body. not_brace c"
  shows "match_star_group (''{'' @ [BSL] @ ''*'' @ body @ ''}'' @ post) = Some (length body + 4)"
proof -
  have nb: "\<not> not_brace (CHR ''}'')" by (simp add: not_brace_def)
  have t: "takeWhile not_brace (body @ CHR ''}'' # post) = body"
    using assms nb by (simp add: takeWhile_append2)
  have d: "dropWhile not_brace (body @ CHR ''}'' # post) = CHR ''}'' # post"
    using assms nb by (simp add: dropWhile_append2)
  show ?thesis by (simp add: match_star_group_def starts_with_def t d)
qed

lemma starts_with_length: "starts_with p s \<Longrightarrow> length p \<le> length s"
proof -
  assume "starts_with p s"
  then have "length (take (length p) s) = length p" by (simp add: starts_with_def)
  then show ?thesis by simp
qed

lemma match_star_group_le:
  assumes "match_star_group s = Some n"
  shows "0 < n \<and> n \<le> length s"
proof -
  from assms have p: "starts_with (''{'' @ [BSL] @ ''*'') s"
    and e: "starts_with ''}'' (dropWhile not_brace (drop 3 s))"
    and n: "n = 3 + length (takeWhile not_brace (drop 3 s)) + 1"
    by (auto simp: match_star_group_def Let_def split: if_splits)
  from starts_with_length[OF p] have l3: "3 \<le> length s" by simp
  from starts_with_length[OF e] have "1 \<le> length (dropWhile not_brace (drop 3 s))" by simp
  moreover have "length (takeWhile not_brace (drop 3 s)) + length (dropWhile not_brace (drop 3 s))
      = length (drop 3 s)"
    by (metis length_append takeWhile_dropWhile_id)
  ultimately have "length (takeWhile not_brace (drop 3 s)) < length (drop 3 s)"
    by linarith
  with n l3 show ?thesis by simp
qed

lemma starts_with_append:
  "length p \<le> length s \<Longrightarrow> starts_with p (s @ t) = starts_with p s"
  by (simp add: starts_with_def)

lemma match_star_group_before_brace:
  assumes "s \<noteq> []"
  shows "match_star_group (s @ CHR ''{'' # r) = match_star_group s"
proof (cases "starts_with (''{'' @ [BSL] @ ''*'') s")
  case True
  from starts_with_length[OF True] have l3: "3 \<le> length s" by simp
  then have sw: "starts_with (''{'' @ [BSL] @ ''*'') (s @ CHR ''{'' # r)"
    using True by (simp add: starts_with_append)
  have d3: "drop 3 (s @ CHR ''{'' # r) = drop 3 s @ CHR ''{'' # r" using l3 by simp
  have nb: "\<not> not_brace (CHR ''{'')" by (simp add: not_brace_def)
  have tw: "takeWhile not_brace (u @ CHR ''{'' # r) = takeWhile not_brace u" for u
    using nb by (induction u) auto
  have dw: "starts_with ''}'' (dropWhile not_brace (u @ CHR ''{'' # r)) =
        starts_with ''}'' (dropWhile not_brace u)" for u
    using nb by (induction u) (auto simp: starts_with_def)
  show ?thesis
    by (simp only: match_star_group_def sw True d3 tw dw Let_def if_True)
next
  case False
  have "\<not> starts_with (''{'' @ [BSL] @ ''*'') (s @ CHR ''{'' # r)"
  proof (cases "3 \<le> length s")
    case True
    with False show ?thesis by (simp add: starts_with_append)
  next
    case False
    moreover have "length s \<noteq> 0" using assms by simp
    ultimately have "length s = Suc 0 \<or> length s = Suc (Suc 0)" by arith
    then obtain a b where "s = [a] \<or> s = [a, b]"
      by (auto simp: length_Suc_conv)
    then show ?thesis by (auto simp: starts_with_def)
  qed
  with False show ?thesis by (simp only: match_star_group_def if_False)
qed

lemma rm_star_groups_Nil: "rm_star_groups [] = []"
  by (simp add: rm_star_groups_def)

lemma rm_star_groups_Cons:
  "rm_star_groups (c # cs) =
     (case match_star_group (c # cs) of
        Some (Suc k) \<Rightarrow> rm_star_groups (drop k cs)
      | _ \<Rightarrow> c # rm_star_groups cs)"
  by (simp add: rm_star_groups_def split: option.splits nat.splits)

lemma rm_star_groups_flat_group:
  assumes "\<forall>c\<in>set body. not_brace c"
  shows "rm_star_groups (pre @ ''{'' @ [BSL] @ ''*'' @ body @ ''}'' @ post) =
         rm_star_groups pre @ rm_star_groups post"
proof (induction pre rule: length_induct)
  case (1 pre)
  define g where "g = [BSL] @ ''*'' @ body @ ''}'' @ post"
  show ?case
  proof (cases pre)
    case Nil
    have "match_star_group (''{'' @ [BSL] @ ''*'' @ body @ ''}'' @ post) = Some (Suc (length body + 3))"
      using match_star_group_flat[OF assms, of post] by simp
    moreover have "length ([BSL] @ ''*'' @ body @ ''}'') = 3 + length body" by simp
    then have "drop (3 + length body) (([BSL] @ ''*'' @ body @ ''}'') @ post) = post"
      by (metis append_eq_conv_conj)
    ultimately have "rm_star_groups (''{'' @ [BSL] @ ''*'' @ body @ ''}'' @ post) = rm_star_groups post"
      by (simp add: rm_star_groups_Cons)
    with Nil show ?thesis by (simp add: rm_star_groups_Nil)
  next
    case (Cons c cs)
    have m: "match_star_group ((c # cs) @ CHR ''{'' # g) = match_star_group (c # cs)"
      by (rule match_star_group_before_brace) simp
    have e: "pre @ ''{'' @ [BSL] @ ''*'' @ body @ ''}'' @ post = c # (cs @ CHR ''{'' # g)"
      by (simp add: Cons g_def)
    show ?thesis
    proof (cases "match_star_group (c # cs)")
      case None
      have ih: "rm_star_groups (cs @ CHR ''{'' # g) = rm_star_groups cs @ rm_star_groups post"
        using 1[rule_format, of cs] Cons by (simp add: g_def)
      show ?thesis unfolding e using m None ih
        by (simp add: rm_star_groups_Cons Cons)
    next
      case (Some n)
      from match_star_group_le[OF Some] obtain k where k: "n = Suc k" "k \<le> length cs"
        by (cases n) auto
      have ih: "rm_star_groups (drop k cs @ CHR ''{'' # g) = rm_star_groups (drop k cs) @ rm_star_groups post"
        using 1[rule_format, of "drop k cs"] Cons by (simp add: g_def)
      show ?thesis unfolding e using m Some k ih
        by (simp add: rm_star_groups_Cons Cons)
    qed
  qed
qed

lemma match_star_group_not_open: "CHR ''{'' \<noteq> c \<Longrightarrow> match_star_group (c # cs) = None"
  by (auto simp: match_star_group_def starts_with_def)

lemma rm_star_groups_no_open:
  "CHR ''{'' \<notin> set s \<Longrightarrow> rm_star_groups (s @ t) = s @ rm_star_groups t"
  by (induction s) (simp_all add: rm_star_groups_Cons match_star_group_not_open)

lemma match_star_group_nested:
  assumes "\<forall>c\<in>set body. not_brace c"
  shows "match_star_group (''{'' @ [BSL] @ ''*'' @ body @ ''{'' @ rest) = None"
proof -
  have "match_star_group ((''{'' @ [BSL] @ ''*'' @ body) @ CHR ''{'' # rest) =
        match_star_group (''{'' @ [BSL] @ ''*'' @ body)"
    by (rule match_star_group_before_brace) simp
  moreover have d: "dropWhile not_brace body = []" using assms by simp
  have n: "match_star_group (''{'' @ [BSL] @ ''*'' @ body) = None"
    by (simp add: match_star_group_def starts_with_def d)
  ultimately show ?thesis using n by simp
qed

lemma rm_star_groups_before_brace:
  "rm_star_groups (pre @ CHR ''{'' # r) = rm_star_groups pre @ rm_star_groups (CHR ''{'' # r)"
proof (induction pre rule: length_induct)
  case (1 pre)
  show ?case
  proof (cases pre)
    case Nil
    then show ?thesis by (simp add: rm_star_groups_Nil)
  next
    case (Cons c cs)
    have m: "match_star_group ((c # cs) @ CHR ''{'' # r) = match_star_group (c # cs)"
      by (rule match_star_group_before_brace) simp
    show ?thesis
    proof (cases "match_star_group (c # cs)")
      case None
      have ih: "rm_star_groups (cs @ CHR ''{'' # r) =
          rm_star_groups cs @ rm_star_groups (CHR ''{'' # r)"
        using 1[rule_format, of cs] Cons by simp
      show ?thesis using m None ih by (simp add: rm_star_groups_Cons Cons)
    next
      case (Some n)
      from match_star_group_le[OF Some] obtain k where k: "n = Suc k" "k \<le> length cs"
        by (cases n) auto
      have ih: "rm_star_groups (drop k cs @ CHR ''{'' # r) =
          rm_star_groups (drop k cs) @ rm_star_groups (CHR ''{'' # r)"
        using 1[rule_format, of "drop k cs"] Cons by simp
      show ?thesis using m Some k ih by (simp add: rm_star_groups_Cons Cons)
    qed
  qed
qed

lemma rm_star_groups_nested_group:
  assumes "\<forall>c\<in>set body. not_brace c"
  shows "rm_star_groups (pre @ ''{'' @ [BSL] @ ''*'' @ body @ ''{'' @ rest) =
         rm_star_groups pre @ ''{'' @ [BSL] @ ''*'' @ body @ rm_star_groups (''{'' @ rest)"
proof -
  have no: "CHR ''{'' \<notin> set ([BSL] @ ''*'' @ body)"
    using assms by (auto simp: not_brace_def)
  have "rm_star_groups (''{'' @ [BSL] @ ''*'' @ body @ ''{'' @ rest) =
        CHR ''{'' # rm_star_groups (([BSL] @ ''*'' @ body) @ ''{'' @ rest)"
    using match_star_group_nested[OF assms, of rest] by (simp add: rm_star_groups_Cons)
  also have "\<dots> = CHR ''{'' # ([BSL] @ ''*'' @ body) @ rm_star_groups (''{'' @ rest)"
    by (simp only: rm_star_groups_no_open[OF no])
  finally have g: "rm_star_groups (''{'' @ [BSL] @ ''*'' @ body @ ''{'' @ rest) =
      ''{'' @ [BSL] @ ''*'' @ body @ rm_star_groups (''{'' @ rest)" by simp
  have "rm_star_groups (pre @ CHR ''{'' # ([BSL] @ ''*'' @ body @ ''{'' @ rest)) =
        rm_star_groups pre @ rm_star_groups (CHR ''{'' # ([BSL] @ ''*'' @ body @ ''{'' @ rest))"
    by (rule rm_star_groups_before_brace)
  with g show ?thesis by simp
qed

text \<open>
  C5 (as amended). Step 4 removes in its entirety every group introduced by a
  backslash-star marker whose content holds no brace: on a text \<open>pre{\*body}post\<close>
  with a brace-free \<open>body\<close> the result is that of \<open>pre\<close> followed by that of \<open>post\<close>.
  A backslash-star group whose content reaches a nested opening brace first is not
  matched: on \<open>pre{\*body{rest\<close> the opening brace, the marker and \<open>body\<close> are kept
  as they are, and step 4 goes on from the nested brace.
\<close>

theorem rm_star_groups_star_group:
  assumes "\<forall>c\<in>set body. not_brace c"
  shows "rm_star_groups (pre @ ''{'' @ [BSL] @ ''*'' @ body @ ''}'' @ post) =
           rm_star_groups pre @ rm_star_groups post \<and>
         rm_star_groups (pre @ ''{'' @ [BSL] @ ''*'' @ body @ ''{'' @ rest) =
           rm_star_groups pre @ ''{'' @ [BSL] @ ''*'' @ body @ rm_star_groups (''{'' @ rest)"
  using rm_star_groups_flat_group[OF assms] rm_star_groups_nested_group[OF assms] by blast

theorem rm_star_groups_star_group_witness:
  "filter (\<lambda>c. \<not> not_brace c) ([BSL] @ ''gen '') = [] \<and>
   rm_star_groups (''a'' @ ''{'' @ [BSL] @ ''*'' @ ([BSL] @ ''gen '') @ ''}'' @ ''b'') = ''ab'' \<and>
   rm_star_groups (''a'' @ ''{'' @ [BSL] @ ''*'' @ ([BSL] @ ''gen '') @ ''{'' @ ''x} y}b'') =
     ''a'' @ ''{'' @ [BSL] @ ''*'' @ ([BSL] @ ''gen '') @ ''{x} y}b''"
proof -
  have h: "\<forall>c\<in>set ([BSL] @ ''gen ''). not_brace c" by (simp add: not_brace_def)
  have a: "rm_star_groups ''a'' = ''a''" "rm_star_groups ''b'' = ''b''"
    "rm_star_groups (''{'' @ ''x} y}b'') = ''{x} y}b''" by code_simp+
  from rm_star_groups_star_group [OF h, of "''a''" "''b''" "''x} y}b''"] h a
  show ?thesis by simp
qed

text \<open>
  A group with a nested pair of braces is not matched by the pattern of step 4: the text
  \<open>{\*\gen {x} y}\<close> passes step 4 unchanged, and the stripper returns \<open>\*x y\<close> for it.
\<close>

theorem rm_star_groups_nested_counterexample:
  "rm_star_groups (''{'' @ [BSL] @ ''*'' @ [BSL] @ ''gen {x} y}'') =
     ''{'' @ [BSL] @ ''*'' @ [BSL] @ ''gen {x} y}'' \<and>
   rtf_to_text (''{'' @ [BSL] @ ''*'' @ [BSL] @ ''gen {x} y}'') = [BSL] @ ''*x y''"
  by code_simp

section \<open>Properties of the question parser\<close>

text \<open>
  C1. On the text \<open>1.\nStem line\na. Opt A\nb. Opt B\nc. Opt C\nd. Opt D\nANS: B\<close> the
  parser returns exactly one record: number 1, stem \<open>Stem line\<close>, the options a to d
  bound to \<open>Opt A\<close> to \<open>Opt D\<close> and no other key, answer \<open>b\<close>.
\<close>

theorem parse_questions_well_formed:
  "parse_questions
     ''1.\<newline>Stem line\<newline>a. Opt A\<newline>b. Opt B\<newline>c. Opt C\<newline>d. Opt D\<newline>ANS: B'' =
   Inr [\<lparr>num = 1, stem = ''Stem line'',
         options = [(''a'', ''Opt A''), (''b'', ''Opt B''), (''c'', ''Opt C''), (''d'', ''Opt D'')],
         answer = ''b''\<rparr>]"
  by code_simp

lemma digit_val_nonneg: "is_digit c \<Longrightarrow> 0 \<le> digit_val c"
  by (auto simp: is_digit_def digit_val_def)

lemma foldl_digits_nonneg:
  "\<forall>c\<in>set ds. is_digit c \<Longrightarrow> 0 \<le> n \<Longrightarrow> 0 \<le> foldl (\<lambda>n c. 10 * n + digit_val c) n ds"
proof (induction ds arbitrary: n)
  case Nil
  then show ?case by simp
next
  case (Cons d ds)
  from Cons.prems have "0 \<le> 10 * n + digit_val d"
    using digit_val_nonneg[of d] by simp
  with Cons show ?case by simp
qed

lemma int_of_str_nonneg: "\<forall>c\<in>set ds. is_digit c \<Longrightarrow> 0 \<le> int_of_str ds"
  unfolding int_of_str_def by (rule foldl_digits_nonneg) simp_all

lemma match_block_digits:
  assumes "match_block block = Some (ds, body)"
  shows "ds \<noteq> [] \<and> (\<forall>c\<in>set ds. is_digit c) \<and> block = ds @ ''.'' @ [NL] @ body"
proof -
  from assms have ds: "ds = takeWhile is_digit block" and ne: "ds \<noteq> []"
    and sw: "starts_with (''.'' @ [NL]) (dropWhile is_digit block)"
    and body: "body = drop 2 (dropWhile is_digit block)"
    by (auto simp: match_block_def Let_def split: if_splits)
  from sw have "take 2 (dropWhile is_digit block) = ''.'' @ [NL]"
    by (simp add: starts_with_def numeral_2_eq_2)
  then have "dropWhile is_digit block = ''.'' @ [NL] @ body"
    unfolding body by (metis append_take_drop_id append_assoc)
  then have "block = ds @ ''.'' @ [NL] @ body"
    unfolding ds by (metis takeWhile_dropWhile_id)
  moreover have "\<forall>c\<in>set ds. is_digit c" unfolding ds by (auto dest: set_takeWhileD)
  ultimately show ?thesis using ne by blast
qed

lemma parse_block_cases:
  assumes "parse_block b = r"
  obtains (skip) "r = Inr None" "strip b = [] \<or> match_block (strip b) = None"
  | (noans) ds body where "match_block (strip b) = Some (ds, body)" "search_ans body = None"
      "r = Inl (ValueError (''Missing ANS for question '' @ str_int (int_of_str ds)))"
  | (noopts) ds body g where "match_block (strip b) = Some (ds, body)" "search_ans body = Some g"
      "finditer_opt 0 (NL # hd (split1 ''ANS:'' body)) = []" "r = Inl IndexError"
  | (built) ds body g o1 os where "match_block (strip b) = Some (ds, body)"
      "search_ans body = Some g"
      "finditer_opt 0 (NL # hd (split1 ''ANS:'' body)) = o1 # os"
      "r = Inr (Some \<lparr>num = int_of_str ds,
             stem = collapse_nl (strip (take (m_start o1) (NL # hd (split1 ''ANS:'' body)))),
             options = build_options (NL # hd (split1 ''ANS:'' body)) (o1 # os) [],
             answer = lower g\<rparr>)"
  using assms unfolding parse_block_def Let_def
  by (auto split: if_splits option.splits list.splits prod.splits)

lemma parse_block_num_nonneg:
  assumes "parse_block b = Inr (Some q)"
  shows "0 \<le> num q"
  using assms
proof (cases rule: parse_block_cases)
  case (built ds body g o1 os)
  from match_block_digits[OF built(1)] have "0 \<le> int_of_str ds"
    by (simp add: int_of_str_nonneg)
  with built(4) show ?thesis by auto
qed auto

lemma parse_blocks_invariant:
  assumes step: "\<And>b q. parse_block b = Inr (Some q) \<Longrightarrow> P q"
    and run: "parse_blocks bs acc = Inr qs"
    and acc: "\<forall>q\<in>set acc. P q"
  shows "\<forall>q\<in>set qs. P q"
  using run acc
proof (induction bs arbitrary: acc)
  case Nil
  then show ?case by simp
next
  case (Cons b bs)
  show ?case
  proof (cases "parse_block b")
    case (Inl e)
    with Cons.prems show ?thesis by simp
  next
    case (Inr r)
    show ?thesis
    proof (cases r)
      case None
      with Inr Cons.prems have "parse_blocks bs acc = Inr qs" by simp
      from Cons.IH[OF this Cons.prems(2)] show ?thesis .
    next
      case (Some q)
      with Inr Cons.prems have r: "parse_blocks bs (acc @ [q]) = Inr qs" by simp
      from Some Inr have "P q" using step by simp
      with Cons.prems(2) have "\<forall>x\<in>set (acc @ [q]). P x" by simp
      from Cons.IH[OF r this] show ?thesis .
    qed
  qed
qed

text \<open>
  C6 (as amended). The number of every record that the parser returns is a non-negative
  integer.
\<close>

theorem parse_questions_num_nonneg:
  assumes "parse_questions text = Inr qs" and "q \<in> set qs"
  shows "0 \<le> num q"
proof -
  from assms(1) have "parse_blocks (blocks_of text) [] = Inr qs"
    by (simp add: parse_questions_def)
  moreover have "\<forall>q\<in>set ([] :: MCQ list). 0 \<le> num q" by simp
  ultimately have "\<forall>q\<in>set qs. 0 \<le> num q"
    using parse_block_num_nonneg by (rule parse_blocks_invariant[rotated])
  with assms(2) show ?thesis by simp
qed

theorem parse_questions_num_nonneg_witness:
  "parse_questions ''7.\<newline>Stem\<newline>a. X\<newline>ANS: A'' =
     Inr [\<lparr>num = 7, stem = ''Stem'', options = [(''a'', ''X'')], answer = ''a''\<rparr>] \<and>
   0 \<le> num \<lparr>num = 7, stem = ''Stem'', options = [(''a'', ''X'')], answer = ''a''\<rparr>"
proof -
  have e: "parse_questions ''7.\<newline>Stem\<newline>a. X\<newline>ANS: A'' =
     Inr [\<lparr>num = 7, stem = ''Stem'', options = [(''a'', ''X'')], answer = ''a''\<rparr>]"
    by code_simp
  from parse_questions_num_nonneg [OF e] e show ?thesis by simp
qed

text \<open>
  A block whose number is written \<open>0\<close> yields a record with number 0, which is not
  positive.
\<close>

theorem parse_questions_num_zero_counterexample:
  "parse_questions ''0.\<newline>Stem\<newline>a. X\<newline>ANS: A'' =
     Inr [\<lparr>num = 0, stem = ''Stem'', options = [(''a'', ''X'')], answer = ''a''\<rparr>] \<and>
   \<not> 1 \<le> num \<lparr>num = 0, stem = ''Stem'', options = [(''a'', ''X'')], answer = ''a''\<rparr>"
  by code_simp

text \<open>
  C3. A block with an \<open>ANS:\<close> marker and no option marker: the claim expects a record with
  the whole body as stem and no options. The parser indexes the empty list of option
  matches at line 85 and raises \<open>IndexError\<close>.
\<close>

theorem parse_questions_no_options_fails:
  "parse_questions ''1.\<newline>Stem\<newline>ANS: A'' = Inl IndexError"
  by code_simp

lemma parse_blocks_append:
  "parse_blocks (pre @ rest) acc =
     (case parse_blocks pre acc of Inl e \<Rightarrow> Inl e | Inr qs \<Rightarrow> parse_blocks rest qs)"
  by (induction pre arbitrary: acc) (auto split: sum.splits option.splits)

lemma parse_block_missing_ans:
  assumes "match_block (strip b) = Some (ds, body)" and "search_ans body = None"
  shows "parse_block b = Inl (ValueError (''Missing ANS for question '' @ str_int (int_of_str ds)))"
proof -
  from match_block_digits[OF assms(1)] have "strip b \<noteq> []" by auto
  with assms show ?thesis by (simp add: parse_block_def)
qed

lemma parse_blocks_error:
  assumes "b \<in> set bs" and "parse_block b = Inl e"
  shows "\<exists>e'. parse_blocks bs acc = Inl e'"
proof -
  from assms(1) obtain pre post where bs: "bs = pre @ b # post" by (auto dest: split_list)
  show ?thesis unfolding bs parse_blocks_append using assms(2)
    by (cases "parse_blocks pre acc") auto
qed

text \<open>
  C2 (as amended). When some block matches the number shape and holds no \<open>ANS:\<close> marker
  followed by optional whitespace and a letter A to D, the parser fails and returns no
  record at all. The blocks are processed in order and the first failure ends the run:
  when every block before that one is skipped or yields a record, the error is the
  \<open>ValueError\<close> with the message \<open>Missing ANS for question N\<close>, \<open>N\<close> being the number of
  the block.
\<close>

theorem parse_questions_missing_ans:
  assumes "match_block (strip b) = Some (ds, body)" and "search_ans body = None"
  shows "(b \<in> set (blocks_of text) \<longrightarrow> (\<exists>e. parse_questions text = Inl e)) \<and>
         (\<forall>pre post qs. blocks_of text = pre @ b # post \<and> parse_blocks pre [] = Inr qs \<longrightarrow>
            parse_questions text =
              Inl (ValueError (''Missing ANS for question '' @ str_int (int_of_str ds))))"
proof -
  note pb = parse_block_missing_ans[OF assms]
  have "\<exists>e. parse_questions text = Inl e" if "b \<in> set (blocks_of text)"
    unfolding parse_questions_def using that pb by (rule parse_blocks_error)
  moreover have "parse_questions text =
      Inl (ValueError (''Missing ANS for question '' @ str_int (int_of_str ds)))"
    if "blocks_of text = pre @ b # post" and "parse_blocks pre [] = Inr qs" for pre post qs
    unfolding parse_questions_def that(1) parse_blocks_append using that(2) pb by simp
  ultimately show ?thesis by blast
qed

theorem parse_questions_missing_ans_witness:
  "match_block (strip ''2.\<newline>Stem\<newline>a. X\<newline>b. Y'') = Some (''2'', ''Stem\<newline>a. X\<newline>b. Y'') \<and>
   search_ans ''Stem\<newline>a. X\<newline>b. Y'' = None \<and>
   blocks_of ''1.\<newline>S\<newline>a. X\<newline>ANS: A\<newline>2.\<newline>Stem\<newline>a. X\<newline>b. Y'' =
     [[], ''1.\<newline>S\<newline>a. X\<newline>ANS: A''] @ ''2.\<newline>Stem\<newline>a. X\<newline>b. Y'' # [] \<and>
   parse_blocks [[], ''1.\<newline>S\<newline>a. X\<newline>ANS: A''] [] =
     Inr [\<lparr>num = 1, stem = ''S'', options = [(''a'', ''X'')], answer = ''a''\<rparr>] \<and>
   parse_questions ''1.\<newline>S\<newline>a. X\<newline>ANS: A\<newline>2.\<newline>Stem\<newline>a. X\<newline>b. Y'' =
     Inl (ValueError ''Missing ANS for question 2'')"
proof -
  have m: "match_block (strip ''2.\<newline>Stem\<newline>a. X\<newline>b. Y'') = Some (''2'', ''Stem\<newline>a. X\<newline>b. Y'')"
    by code_simp
  have s: "search_ans ''Stem\<newline>a. X\<newline>b. Y'' = None" by code_simp
  have bl: "blocks_of ''1.\<newline>S\<newline>a. X\<newline>ANS: A\<newline>2.\<newline>Stem\<newline>a. X\<newline>b. Y'' =
     [[], ''1.\<newline>S\<newline>a. X\<newline>ANS: A''] @ ''2.\<newline>Stem\<newline>a. X\<newline>b. Y'' # []"
    by code_simp
  have pr: "parse_blocks [[], ''1.\<newline>S\<newline>a. X\<newline>ANS: A''] [] =
     Inr [\<lparr>num = 1, stem = ''S'', options = [(''a'', ''X'')], answer = ''a''\<rparr>]"
    by code_simp
  have msg: "''Missing ANS for question '' @ str_int (int_of_str ''2'') = ''Missing ANS for question 2''"
    by code_simp
  from parse_questions_missing_ans [OF m s,
      of "''1.\<newline>S\<newline>a. X\<newline>ANS: A\<newline>2.\<newline>Stem\<newline>a. X\<newline>b. Y''"] bl pr
  have "parse_questions ''1.\<newline>S\<newline>a. X\<newline>ANS: A\<newline>2.\<newline>Stem\<newline>a. X\<newline>b. Y'' =
     Inl (ValueError (''Missing ANS for question '' @ str_int (int_of_str ''2'')))"
    by blast
  with m s bl pr msg show ?thesis by simp
qed

text \<open>
  In the text \<open>1.\nS\n2.\nT\<close> the block of question 2 matches the number shape and has no
  \<open>ANS:\<close> marker, but the error that ends the run is that of question 1, and its message
  does not contain the digit 2.
\<close>

theorem parse_questions_missing_ans_counterexample:
  "''2.\<newline>T'' \<in> set (blocks_of ''1.\<newline>S\<newline>2.\<newline>T'') \<and>
   match_block (strip ''2.\<newline>T'') = Some (''2'', ''T'') \<and>
   search_ans ''T'' = None \<and>
   parse_questions ''1.\<newline>S\<newline>2.\<newline>T'' = Inl (ValueError ''Missing ANS for question 1'') \<and>
   CHR ''2'' \<notin> set ''Missing ANS for question 1''"
  by code_simp

lemma is_space_upper: "L \<in> set ''ABCD'' \<Longrightarrow> \<not> is_space L"
  by (auto simp: is_space_def)

lemma is_space_lower: "L \<in> set ''abcd'' \<Longrightarrow> \<not> is_space L"
  by (auto simp: is_space_def)

lemma dropWhile_spaces:
  assumes "\<forall>c\<in>set ws. is_space c" and "\<not> is_space L"
  shows "dropWhile is_space (ws @ L # rest) = L # rest"
  using assms by (simp add: dropWhile_append2)

lemma match_ans_marker:
  assumes "\<forall>c\<in>set ws. is_space c" and "L \<in> set ''ABCD''"
  shows "match_ans (''ANS:'' @ ws @ L # rest) = Some [L]"
proof -
  have "dropWhile is_space (ws @ L # rest) = L # rest"
    using assms(1) is_space_upper[OF assms(2)] by (rule dropWhile_spaces)
  with assms(2) show ?thesis by (simp add: match_ans_def starts_with_def)
qed

lemma match_ans_lower_case:
  assumes "\<forall>c\<in>set ws. is_space c" and "L \<in> set ''abcd''"
  shows "match_ans (''ANS:'' @ ws @ L # rest) = None"
proof -
  have "dropWhile is_space (ws @ L # rest) = L # rest"
    using assms(1) is_space_lower[OF assms(2)] by (rule dropWhile_spaces)
  moreover have "L \<notin> set ''ABCD''" using assms(2) by auto
  ultimately show ?thesis by (simp add: match_ans_def starts_with_def)
qed

lemma search_ans_found:
  "match_ans s = Some g \<Longrightarrow> \<exists>g'. search_ans (pre @ s) = Some g'"
proof (induction pre)
  case Nil
  then show ?case by (cases s) (auto simp: match_ans_def starts_with_def)
next
  case (Cons c cs)
  then show ?case by (cases "match_ans (c # cs @ s)") auto
qed

lemma search_ans_leftmost:
  assumes "match_ans s = Some g"
    and "\<forall>i<length pre. match_ans (drop i (pre @ s)) = None"
  shows "search_ans (pre @ s) = Some g"
  using assms(2)
proof (induction pre)
  case Nil
  with assms(1) show ?case by (cases s) (auto simp: match_ans_def starts_with_def)
next
  case (Cons c cs)
  from Cons.prems have h: "match_ans (c # cs @ s) = None" by force
  have "\<forall>i<length cs. match_ans (drop i (cs @ s)) = None"
  proof (intro allI impI)
    fix i assume "i < length cs"
    then have "Suc i < length (c # cs)" by simp
    with Cons.prems have "match_ans (drop (Suc i) ((c # cs) @ s)) = None" by blast
    then show "match_ans (drop i (cs @ s)) = None" by simp
  qed
  with Cons.IH h show ?case by simp
qed

lemma search_ans_letter:
  "search_ans s = Some g \<Longrightarrow> g \<in> {''A'', ''B'', ''C'', ''D''}"
proof (induction s)
  case Nil
  then show ?case by simp
next
  case (Cons c cs)
  show ?case
  proof (cases "match_ans (c # cs)")
    case None
    with Cons show ?thesis by simp
  next
    case (Some g')
    with Cons.prems have "g' = g" by simp
    with Some show ?thesis
      by (auto simp: match_ans_def split: if_splits list.splits)
  qed
qed

lemma lower_letters:
  "lower ''A'' = ''a''" "lower ''B'' = ''b''" "lower ''C'' = ''c''" "lower ''D'' = ''d''"
  by code_simp+

lemma parse_block_answer:
  assumes "parse_block b = Inr (Some q)"
  shows "\<exists>ds body g. match_block (strip b) = Some (ds, body) \<and> search_ans body = Some g \<and>
           answer q = lower g"
  using assms by (cases rule: parse_block_cases) auto

text \<open>
  C4 (as amended). The answer letter is captured in upper case only. When the body of a
  block holds \<open>ANS:\<close>, optional whitespace and an upper-case letter A to D, the parser
  accepts the marker: it does not raise the missing-answer error. When no marker is
  matched at an earlier position of the body, the answer of the record is that letter in
  lower case. The answer of any record is one of a, b, c, d. After \<open>ANS:\<close> and optional
  whitespace a lower-case letter a to d is not matched.
\<close>

theorem parse_block_answer_upper_case:
  assumes "match_block (strip b) = Some (ds, pre @ ''ANS:'' @ ws @ L # rest)"
    and "\<forall>c\<in>set ws. is_space c" and "L \<in> set ''ABCD''"
  shows "(\<forall>m. parse_block b \<noteq> Inl (ValueError m)) \<and>
         ((\<forall>i<length pre. match_ans (drop i (pre @ ''ANS:'' @ ws @ L # rest)) = None) \<longrightarrow>
            (\<forall>q. parse_block b = Inr (Some q) \<longrightarrow> answer q = lower [L])) \<and>
         (\<forall>q. parse_block b = Inr (Some q) \<longrightarrow> answer q \<in> {''a'', ''b'', ''c'', ''d''}) \<and>
         lower [L] \<in> {''a'', ''b'', ''c'', ''d''} \<and>
         (\<forall>l\<in>set ''abcd''. match_ans (''ANS:'' @ ws @ l # rest) = None)"
proof -
  let ?body = "pre @ ''ANS:'' @ ws @ L # rest"
  have ma: "match_ans (''ANS:'' @ ws @ L # rest) = Some [L]"
    using assms(2,3) by (rule match_ans_marker)
  from search_ans_found[OF ma, of pre] obtain g where g: "search_ans ?body = Some g" by auto
  have 1: "parse_block b \<noteq> Inl (ValueError m)" for m
  proof
    assume "parse_block b = Inl (ValueError m)"
    then show False using assms(1) g by (cases rule: parse_block_cases) auto
  qed
  have 2: "answer q = lower [L]"
    if lm: "\<forall>i<length pre. match_ans (drop i ?body) = None" and pq: "parse_block b = Inr (Some q)"
    for q
  proof -
    from search_ans_leftmost[OF ma lm] have "search_ans ?body = Some [L]" .
    with parse_block_answer[OF pq] assms(1) show ?thesis by auto
  qed
  have 3: "answer q \<in> {''a'', ''b'', ''c'', ''d''}" if pq: "parse_block b = Inr (Some q)" for q
  proof -
    from parse_block_answer[OF pq] obtain ds' body' g' where
      "search_ans body' = Some g'" "answer q = lower g'" by blast
    with search_ans_letter[of body' g'] show ?thesis by (auto simp: lower_letters)
  qed
  have 4: "lower [L] \<in> {''a'', ''b'', ''c'', ''d''}"
    using assms(3) by (auto simp: lower_letters)
  have 5: "\<forall>l\<in>set ''abcd''. match_ans (''ANS:'' @ ws @ l # rest) = None"
    using match_ans_lower_case[OF assms(2)] by blast
  from 1 2 3 4 5 show ?thesis by blast
qed

theorem parse_block_answer_upper_case_witness:
  "match_block (strip ''3.\<newline>Stem\<newline>a. X\<newline>ANS: \<newline> C'') =
     Some (''3'', ''Stem\<newline>a. X\<newline>'' @ ''ANS:'' @ '' \<newline> '' @ CHR ''C'' # []) \<and>
   filter (\<lambda>c. \<not> is_space c) '' \<newline> '' = [] \<and>
   CHR ''C'' \<in> set ''ABCD'' \<and>
   map (\<lambda>i. match_ans (drop i (''Stem\<newline>a. X\<newline>'' @ ''ANS:'' @ '' \<newline> '' @ CHR ''C'' # [])))
     [0..<length ''Stem\<newline>a. X\<newline>''] = replicate (length ''Stem\<newline>a. X\<newline>'') None \<and>
   parse_block ''3.\<newline>Stem\<newline>a. X\<newline>ANS: \<newline> C'' =
     Inr (Some \<lparr>num = 3, stem = ''Stem'', options = [(''a'', ''X'')], answer = ''c''\<rparr>) \<and>
   answer \<lparr>num = 3, stem = ''Stem'', options = [(''a'', ''X'')], answer = ''c''\<rparr> = lower ''C''"
proof -
  have m: "match_block (strip ''3.\<newline>Stem\<newline>a. X\<newline>ANS: \<newline> C'') =
     Some (''3'', ''Stem\<newline>a. X\<newline>'' @ ''ANS:'' @ '' \<newline> '' @ CHR ''C'' # [])"
    by code_simp
  have w: "filter (\<lambda>c. \<not> is_space c) '' \<newline> '' = []" by code_simp
  then have w': "\<forall>c\<in>set '' \<newline> ''. is_space c" by (simp only: filter_empty_conv) blast
  have l: "CHR ''C'' \<in> set ''ABCD''" by simp
  have e: "map (\<lambda>i. match_ans (drop i (''Stem\<newline>a. X\<newline>'' @ ''ANS:'' @ '' \<newline> '' @ CHR ''C'' # [])))
     [0..<length ''Stem\<newline>a. X\<newline>''] = replicate (length ''Stem\<newline>a. X\<newline>'') None"
    by code_simp
  have e': "\<forall>i<length ''Stem\<newline>a. X\<newline>''.
      match_ans (drop i (''Stem\<newline>a. X\<newline>'' @ ''ANS:'' @ '' \<newline> '' @ CHR ''C'' # [])) = None"
  proof (intro allI impI)
    fix i assume i: "i < length ''Stem\<newline>a. X\<newline>''"
    from arg_cong[OF e, of "\<lambda>xs. xs ! i"] i
    show "match_ans (drop i (''Stem\<newline>a. X\<newline>'' @ ''ANS:'' @ '' \<newline> '' @ CHR ''C'' # [])) = None"
      by (simp only: nth_map length_upt nth_upt nth_replicate add_0 minus_nat.diff_0 length_map)
  qed
  have p: "parse_block ''3.\<newline>Stem\<newline>a. X\<newline>ANS: \<newline> C'' =
     Inr (Some \<lparr>num = 3, stem = ''Stem'', options = [(''a'', ''X'')], answer = ''c''\<rparr>)"
    by code_simp
  from parse_block_answer_upper_case [OF m w' l] e' p
  have "answer \<lparr>num = 3, stem = ''Stem'', options = [(''a'', ''X'')], answer = ''c''\<rparr> = lower ''C''"
    by blast
  with m w l e p show ?thesis by blast
qed

text \<open>
  The marker \<open>ANS: b\<close>, with a lower-case letter, is not accepted: the parser raises the
  missing-answer error for the block.
\<close>

theorem parse_questions_lower_case_counterexample:
  "parse_questions ''1.\<newline>Stem\<newline>a. X\<newline>b. Y\<newline>ANS: b'' =
     Inl (ValueError ''Missing ANS for question 1'')"
  by code_simp

lemma build_options_other:
  "k \<notin> m_group ` set os \<Longrightarrow> map_of (build_options s os acc) k = map_of acc k"
  by (induction os arbitrary: acc) (simp_all add: Let_def update_conv')

lemma build_options_distinct:
  "distinct (map fst acc) \<Longrightarrow> distinct (map fst (build_options s os acc))"
  by (induction os arbitrary: acc) (simp_all add: Let_def distinct_update)

lemma build_options_last:
  assumes "\<forall>y\<in>set ys. m_group y \<noteq> m_group o1"
  shows "map_of (build_options s (xs @ o1 # ys) acc) (m_group o1) =
         Some (option_text s (m_end o1) (case ys of [] \<Rightarrow> length s | o2 # _ \<Rightarrow> m_start o2))"
proof (induction xs arbitrary: acc)
  case Nil
  from assms have "m_group o1 \<notin> m_group ` set ys" by auto
  then show ?case by (simp add: Let_def build_options_other update_conv')
next
  case (Cons x xs)
  then show ?case by (simp add: Let_def)
qed

text \<open>
  C10. When an option letter marks more than one option boundary in a block, the parser
  does not fail and keeps one entry for the letter: for every option match that is the
  last one with its letter, the options of the record bind the letter to the text that
  follows that match, up to the next match or the end of the truncated body; no key
  occurs twice.
\<close>

theorem parse_block_duplicate_letter:
  assumes "match_block (strip b) = Some (ds, body)"
    and "search_ans body = Some g"
    and "finditer_opt 0 (NL # hd (split1 ''ANS:'' body)) = xs @ o1 # ys"
    and "\<forall>y\<in>set ys. m_group y \<noteq> m_group o1"
  shows "\<exists>q. parse_block b = Inr (Some q) \<and>
           map_of (options q) (m_group o1) =
             Some (option_text (NL # hd (split1 ''ANS:'' body)) (m_end o1)
                     (case ys of [] \<Rightarrow> length (NL # hd (split1 ''ANS:'' body))
                               | o2 # _ \<Rightarrow> m_start o2)) \<and>
           distinct (map fst (options q))"
proof -
  let ?s = "NL # hd (split1 ''ANS:'' body)"
  from assms(3) obtain p ps where ne: "finditer_opt 0 ?s = p # ps"
    by (cases "finditer_opt 0 ?s") auto
  obtain r where r: "parse_block b = r" by simp
  then show ?thesis
  proof (cases rule: parse_block_cases)
    case skip
    with assms(1) match_block_digits[OF assms(1)] show ?thesis by auto
  next
    case (noans ds' body')
    with assms(1,2) show ?thesis by simp
  next
    case (noopts ds' body' g')
    with assms(1) ne show ?thesis by simp
  next
    case (built ds' body' g' o' os')
    from built(1) assms(1) have eq: "body' = body" by simp
    from built(3)[unfolded eq, symmetric] assms(3) have e: "o' # os' = xs @ o1 # ys"
      by (rule trans)
    define q where "q = \<lparr>num = int_of_str ds',
             stem = collapse_nl (strip (take (m_start o') ?s)),
             options = build_options ?s (xs @ o1 # ys) [],
             answer = lower g'\<rparr>"
    have pq: "parse_block b = Inr (Some q)"
      unfolding r built(4) eq e q_def ..
    have "map_of (build_options ?s (xs @ o1 # ys) []) (m_group o1) =
        Some (option_text ?s (m_end o1) (case ys of [] \<Rightarrow> length ?s | o2 # _ \<Rightarrow> m_start o2))"
      using assms(4) by (rule build_options_last)
    moreover have "distinct (map fst (build_options ?s (xs @ o1 # ys) []))"
      by (rule build_options_distinct) simp
    moreover have "options q = build_options ?s (xs @ o1 # ys) []"
      by (simp add: q_def del: build_options.simps)
    ultimately show ?thesis using pq by (intro exI[of _ q]) (simp del: build_options.simps)
  qed
qed

theorem parse_block_duplicate_letter_witness:
  "match_block (strip ''5.\<newline>Stem\<newline>a. First\<newline>b. Other\<newline>a. Second\<newline>ANS: A'') =
     Some (''5'', ''Stem\<newline>a. First\<newline>b. Other\<newline>a. Second\<newline>ANS: A'') \<and>
   search_ans ''Stem\<newline>a. First\<newline>b. Other\<newline>a. Second\<newline>ANS: A'' = Some ''A'' \<and>
   finditer_opt 0 (NL # hd (split1 ''ANS:'' ''Stem\<newline>a. First\<newline>b. Other\<newline>a. Second\<newline>ANS: A'')) =
     [\<lparr>m_start = 5, m_group = ''a'', m_end = 9\<rparr>, \<lparr>m_start = 14, m_group = ''b'', m_end = 18\<rparr>]
       @ \<lparr>m_start = 23, m_group = ''a'', m_end = 27\<rparr> # [] \<and>
   parse_block ''5.\<newline>Stem\<newline>a. First\<newline>b. Other\<newline>a. Second\<newline>ANS: A'' =
     Inr (Some \<lparr>num = 5, stem = ''Stem'', options = [(''a'', ''Second''), (''b'', ''Other'')],
                 answer = ''a''\<rparr>) \<and>
   map_of [(''a'', ''Second''), (''b'', ''Other'')] ''a'' =
     Some (option_text (NL # hd (split1 ''ANS:'' ''Stem\<newline>a. First\<newline>b. Other\<newline>a. Second\<newline>ANS: A''))
             27 (length (NL # hd (split1 ''ANS:'' ''Stem\<newline>a. First\<newline>b. Other\<newline>a. Second\<newline>ANS: A''))))"
proof -
  have m: "match_block (strip ''5.\<newline>Stem\<newline>a. First\<newline>b. Other\<newline>a. Second\<newline>ANS: A'') =
     Some (''5'', ''Stem\<newline>a. First\<newline>b. Other\<newline>a. Second\<newline>ANS: A'')"
    by code_simp
  have s: "search_ans ''Stem\<newline>a. First\<newline>b. Other\<newline>a. Second\<newline>ANS: A'' = Some ''A''"
    by code_simp
  have f: "finditer_opt 0 (NL # hd (split1 ''ANS:'' ''Stem\<newline>a. First\<newline>b. Other\<newline>a. Second\<newline>ANS: A'')) =
     [\<lparr>m_start = 5, m_group = ''a'', m_end = 9\<rparr>, \<lparr>m_start = 14, m_group = ''b'', m_end = 18\<rparr>]
       @ \<lparr>m_start = 23, m_group = ''a'', m_end = 27\<rparr> # []"
    by code_simp
  have p: "parse_block ''5.\<newline>Stem\<newline>a. First\<newline>b. Other\<newline>a. Second\<newline>ANS: A'' =
     Inr (Some \<lparr>num = 5, stem = ''Stem'', options = [(''a'', ''Second''), (''b'', ''Other'')],
                 answer = ''a''\<rparr>)"
    by code_simp
  have h: "\<forall>y\<in>set ([] :: opt_match list). m_group y \<noteq> m_group \<lparr>m_start = 23, m_group = ''a'', m_end = 27\<rparr>"
    by simp
  from parse_block_duplicate_letter [OF m s f h] p
  have "map_of [(''a'', ''Second''), (''b'', ''Other'')] ''a'' =
     Some (option_text (NL # hd (split1 ''ANS:'' ''Stem\<newline>a. First\<newline>b. Other\<newline>a. Second\<newline>ANS: A''))
             27 (length (NL # hd (split1 ''ANS:'' ''Stem\<newline>a. First\<newline>b. Other\<newline>a. Second\<newline>ANS: A''))))"
    by auto
  with m s f p show ?thesis by blast
qed

end
